theory Spec2Isabelle
  imports Main "HOL-Library.Sublist"
begin

section \<open>Python values and strings\<close>

text \<open>
  A Python \<open>str\<close> is a sequence of Unicode code points; a code point is modelled as a
  natural number and a string as a list of them.  \<open>u\<close> reads an ASCII literal.
\<close>

type_synonym codepoint = nat
type_synonym ustring = "codepoint list"

definition u :: "string \<Rightarrow> ustring" where
  "u s = map of_char s"

text \<open>
  The values a spreadsheet cell can hold: a string, an integer, or anything else
  (a float such as NaN, a date, \<open>None\<close>), which the program only passes through.
\<close>

datatype 'a pyval = PStr ustring | PInt int | PObj 'a

subsection \<open>The Unicode tables of the interpreter\<close>

text \<open>
  \<open>str.lower\<close>, \<open>str.strip\<close> and the regular expression class \<open>\w\<close> consult the
  interpreter's Unicode database, which is not part of the repository.  It is taken as a
  parameter: \<open>isalnum\<close> is \<open>str.isalnum\<close> on one code point (letters and digits),
  \<open>isspace\<close> is \<open>str.isspace\<close> on one code point, \<open>lower\<close> is \<open>str.lower\<close>.
\<close>

record ucd =
  isalnum :: "codepoint \<Rightarrow> bool"
  isspace :: "codepoint \<Rightarrow> bool"
  lower :: "ustring \<Rightarrow> ustring"

text \<open>
  The tables restricted to ASCII, where they agree with CPython: digits and the letters
  are alphanumeric; tab, line feed, vertical tab, form feed, carriage return, the four
  separators 28 to 31 and the blank are white space; \<open>A\<close> to \<open>Z\<close> are lowered by adding 32.
  Beyond code point 127 this instance classifies nothing; it is used on ASCII inputs only.
\<close>

definition ascii_isalnum :: "codepoint \<Rightarrow> bool" where
  "ascii_isalnum c = ((48 \<le> c \<and> c \<le> 57) \<or> (65 \<le> c \<and> c \<le> 90) \<or> (97 \<le> c \<and> c \<le> 122))"

definition ascii_isspace :: "codepoint \<Rightarrow> bool" where
  "ascii_isspace c = ((9 \<le> c \<and> c \<le> 13) \<or> (28 \<le> c \<and> c \<le> 32))"

definition ascii_lower :: "ustring \<Rightarrow> ustring" where
  "ascii_lower s = map (\<lambda>c. if 65 \<le> c \<and> c \<le> 90 then c + 32 else c) s"

definition ascii_ucd :: ucd where
  "ascii_ucd = \<lparr>isalnum = ascii_isalnum, isspace = ascii_isspace, lower = ascii_lower\<rparr>"

text \<open>\<open>s.strip()\<close>: white space removed at both ends.\<close>

definition strip :: "ucd \<Rightarrow> ustring \<Rightarrow> ustring" where
  "strip U s = rev (dropWhile (isspace U) (rev (dropWhile (isspace U) s)))"

text \<open>\<open>kw in t\<close> on two strings: \<open>kw\<close> occurs in \<open>t\<close> at some position.\<close>

fun str_contains :: "ustring \<Rightarrow> ustring \<Rightarrow> bool" where
  "str_contains kw [] = (kw = [])"
| "str_contains kw (c # cs) = (if prefix kw (c # cs) then True else str_contains kw cs)"

section \<open>Text processing\<close>

text \<open>
  The class \<open>\w\<close> of a Unicode pattern: an alphanumeric code point or the underscore
  (code point 95).
\<close>

definition word_char :: "ucd \<Rightarrow> codepoint \<Rightarrow> bool" where
  "word_char U c = (isalnum U c \<or> c = 95)"

text \<open>
  \<open>re.findall(r"\w+", s)\<close>: scan from the left; at a word character take the longest
  run of word characters and go on behind it, at any other character move on by one.
\<close>

function findall_word :: "(codepoint \<Rightarrow> bool) \<Rightarrow> ustring \<Rightarrow> ustring list" where
  "findall_word w [] = []"
| "findall_word w (c # cs) =
     (if w c then (c # takeWhile w cs) # findall_word w (dropWhile w cs)
      else findall_word w cs)"
  by pat_completeness auto
termination
  by (relation "measure (\<lambda>(w, s). length s)")
     (auto simp: length_dropWhile_le less_Suc_eq_le)

definition tokenize :: "ucd \<Rightarrow> 'a pyval \<Rightarrow> ustring list" where
  "tokenize U text =
     (case text of
        PStr s \<Rightarrow> findall_word (word_char U) (lower U s)
      | _ \<Rightarrow> [])"

text \<open>The filter \<open>if kw and kw.strip()\<close> on a candidate keyword.\<close>

definition usable :: "ucd \<Rightarrow> ustring \<Rightarrow> bool" where
  "usable U kw = (kw \<noteq> [] \<and> strip U kw \<noteq> [])"

text \<open>
  The inner loop of the substring branch, \<open>for t in token_set: if kw in t: ...; break\<close>,
  over some enumeration of the token set: it tells whether \<open>kw\<close> is appended.
\<close>

primrec token_loop :: "ustring \<Rightarrow> ustring list \<Rightarrow> bool" where
  "token_loop kw [] = False"
| "token_loop kw (t # ts) = (if str_contains kw t then True else token_loop kw ts)"

text \<open>The outer loop \<open>for kw in kws\<close>, with the list \<open>matched\<close> it appends to.\<close>

primrec kw_loop :: "ustring list \<Rightarrow> ustring list \<Rightarrow> ustring list \<Rightarrow> ustring list" where
  "kw_loop [] token_set matched = matched"
| "kw_loop (kw # kws) token_set matched =
     kw_loop kws token_set (if token_loop kw token_set then matched @ [kw] else matched)"

text \<open>The list \<open>kws\<close> of the matcher: the usable keywords, trimmed and lowercased.\<close>

definition normalized_keywords :: "ucd \<Rightarrow> ustring list \<Rightarrow> ustring list" where
  "normalized_keywords U medical_keywords =
     map (\<lambda>kw. lower U (strip U kw)) (filter (usable U) medical_keywords)"

definition extract_keywords_from_text ::
  "ucd \<Rightarrow> 'a pyval \<Rightarrow> ustring list \<Rightarrow> bool \<Rightarrow> ustring list" where
  "extract_keywords_from_text U text medical_keywords use_substring =
     (let tokens = tokenize U text in
      if tokens = [] then []
      else
        let token_set = remdups tokens;
            kws = normalized_keywords U medical_keywords
        in if \<not> use_substring then filter (\<lambda>kw. kw \<in> set token_set) kws
           else kw_loop kws token_set [])"

section \<open>Configuration\<close>

definition DUTCH_STOPWORDS :: "ustring set" where
  "DUTCH_STOPWORDS = set (map u
     [''de'', ''het'', ''en'', ''een'', ''in'', ''van'', ''met'', ''op'', ''te'', ''dat'', ''die'',
      ''is'', ''was'', ''bij'', ''als'', ''maar'', ''ook'', ''niet'', ''wel'', ''om'', ''voor'',
      ''naar'', ''uit'', ''aan'', ''door'', ''tot'', ''over'', ''onder'', ''hij'', ''zij'', ''ze'',
      ''hun'', ''zijn'', ''haar'', ''we'', ''wij'', ''jij'', ''je'', ''u'', ''ik''])"

section \<open>Processing a sheet\<close>

text \<open>
  Errors are values.  \<open>ReadFailed\<close> is the \<open>ValueError\<close> raised when the sheet cannot be
  read, \<open>MissingColumns missing available\<close> the one raised for absent required columns,
  with the two lists its message prints, \<open>NoWords\<close> the one raised for an empty word
  cloud text; \<open>RenderFailed\<close> is whatever the renderer itself raises.
\<close>

datatype 'x error =
    ReadFailed 'x
  | MissingColumns "ustring list" "ustring list"
  | NoWords
  | RenderFailed 'x

text \<open>
  The frame \<open>read_excel\<close> returns: its column labels and its rows in order, a row giving
  the cell under each label.
\<close>

record 'a sheet =
  columns :: "ustring list"
  records :: "(ustring \<Rightarrow> 'a pyval) list"

text \<open>
  A result row is a Python \<open>dict\<close>: an association list in insertion order.  Storing
  under a key already present replaces the value in place, otherwise the pair is appended.
\<close>

type_synonym 'a row = "(ustring \<times> 'a pyval) list"

fun dict_set :: "('k \<times> 'v) list \<Rightarrow> 'k \<Rightarrow> 'v \<Rightarrow> ('k \<times> 'v) list" where
  "dict_set [] k v = [(k, v)]"
| "dict_set ((k', v') # d) k v =
     (if k' = k then (k', v) # d else (k', v') # dict_set d k v)"

definition dict_get :: "('k \<times> 'v) list \<Rightarrow> 'k \<Rightarrow> 'v option" where
  "dict_get d k = map_of d k"

text \<open>The result frame: column labels and rows.\<close>

record 'a table =
  t_columns :: "ustring list"
  t_rows :: "'a row list"

text \<open>
  \<open>pd.DataFrame(rows)\<close> on a list of dicts: the columns are the keys in the order in
  which they are first seen, one row per dict.
\<close>

primrec add_keys :: "'k list \<Rightarrow> 'k list \<Rightarrow> 'k list" where
  "add_keys cols [] = cols"
| "add_keys cols (k # ks) = add_keys (if k \<in> set cols then cols else cols @ [k]) ks"

definition DataFrame :: "'a row list \<Rightarrow> 'a table" where
  "DataFrame rows = \<lparr>t_columns = fold (\<lambda>r cols. add_keys cols (map fst r)) rows [], t_rows = rows\<rparr>"

text \<open>\<open>results.empty\<close>: one of the two axes has length zero.\<close>

definition empty_frame :: "'a table \<Rightarrow> bool" where
  "empty_frame t = (t_rows t = [] \<or> t_columns t = [])"

text \<open>\<open>text if isinstance(text, str) else ""\<close>\<close>

definition text_or_empty :: "'a pyval \<Rightarrow> 'a pyval" where
  "text_or_empty text = (case text of PStr s \<Rightarrow> PStr s | _ \<Rightarrow> PStr [])"

text \<open>The loop \<open>for kw in kws: row[kw] = int(kw in matched)\<close>.\<close>

primrec flag_loop :: "ustring list \<Rightarrow> ustring list \<Rightarrow> 'a row \<Rightarrow> 'a row" where
  "flag_loop [] matched row = row"
| "flag_loop (kw # kws) matched row =
     flag_loop kws matched (dict_set row kw (PInt (if kw \<in> set matched then 1 else 0)))"

text \<open>
  The loop over \<open>df.iterrows()\<close>; its state is the pair of the lists \<open>rows\<close> and
  \<open>all_words\<close>.
\<close>

primrec row_loop ::
  "ucd \<Rightarrow> ustring list \<Rightarrow> ustring \<Rightarrow> ustring \<Rightarrow> bool \<Rightarrow> (ustring \<Rightarrow> 'a pyval) list \<Rightarrow>
   'a row list \<times> ustring list \<Rightarrow> 'a row list \<times> ustring list" where
  "row_loop U kws patient_id_column text_column use_substring [] st = st"
| "row_loop U kws patient_id_column text_column use_substring (r # rs) st =
     (let pid = r patient_id_column;
          text = text_or_empty (r text_column);
          matched = extract_keywords_from_text U text kws use_substring;
          row = flag_loop kws matched [(patient_id_column, pid)];
          tokens = filter (\<lambda>t. t \<notin> DUTCH_STOPWORDS) (tokenize U text)
      in row_loop U kws patient_id_column text_column use_substring rs
           (fst st @ [row], snd st @ tokens))"

text \<open>The list \<open>kws\<close> of \<open>process_sheet\<close>: the usable keywords, trimmed.\<close>

definition sheet_keywords :: "ucd \<Rightarrow> ustring list \<Rightarrow> ustring list" where
  "sheet_keywords U medical_keywords = map (strip U) (filter (usable U) medical_keywords)"

text \<open>
  \<open>process_sheet\<close>.  Reading the file is the environment's part: the first argument
  after the tables is what \<open>read_excel\<close> gave for the file and sheet, a frame or the
  exception it raised.
\<close>

definition process_sheet ::
  "ucd \<Rightarrow> 'x + 'a sheet \<Rightarrow> ustring list \<Rightarrow> ustring \<Rightarrow> ustring \<Rightarrow> bool \<Rightarrow>
   'x error + ('a table \<times> ustring list)" where
  "process_sheet U loaded medical_keywords patient_id_column text_column use_substring =
     (case loaded of
        Inl e \<Rightarrow> Inl (ReadFailed e)
      | Inr df \<Rightarrow>
          let missing = filter (\<lambda>c. c \<notin> set (columns df)) [patient_id_column, text_column] in
          if missing \<noteq> [] then Inl (MissingColumns missing (columns df))
          else
            let kws = sheet_keywords U medical_keywords;
                st = row_loop U kws patient_id_column text_column use_substring (records df) ([], []);
                results = DataFrame (fst st);
                results = (if empty_frame results
                           then \<lparr>t_columns = patient_id_column # kws, t_rows = []\<rparr>
                           else results)
            in Inr (results, snd st))"

section \<open>The word cloud\<close>

text \<open>\<open>sep.join(ws)\<close>\<close>

fun join :: "ustring \<Rightarrow> ustring list \<Rightarrow> ustring" where
  "join sep [] = []"
| "join sep [w] = w"
| "join sep (w # ws) = w @ sep @ join sep ws"

text \<open>
  \<open>build_wordcloud_image\<close>; the renderer (\<open>WordCloud(...).generate(text).to_image()\<close>)
  is a parameter that returns an image or raises.
\<close>

definition build_wordcloud_image ::
  "ucd \<Rightarrow> (ustring \<Rightarrow> 'x + 'img) \<Rightarrow> ustring list \<Rightarrow> 'x error + 'img" where
  "build_wordcloud_image U render all_words =
     (let text = join [32] all_words in
      if strip U text = [] then Inl NoWords
      else (case render text of Inl e \<Rightarrow> Inl (RenderFailed e) | Inr img \<Rightarrow> Inr img))"

section \<open>The specification's wording\<close>

text \<open>
  Splitting at separators, as the specification words tokenization: every separator
  ends a piece, and the pieces of length zero are dropped.
\<close>

fun split_at_separators :: "('a \<Rightarrow> bool) \<Rightarrow> 'a list \<Rightarrow> 'a list list" where
  "split_at_separators sep [] = [[]]"
| "split_at_separators sep (c # cs) =
     (if sep c then [] # split_at_separators sep cs
      else (case split_at_separators sep cs of
              [] \<Rightarrow> [[c]]
            | piece # pieces \<Rightarrow> (c # piece) # pieces))"

definition maximal_runs :: "('a \<Rightarrow> bool) \<Rightarrow> 'a list \<Rightarrow> 'a list list" where
  "maximal_runs p s = filter (\<lambda>piece. piece \<noteq> []) (split_at_separators (\<lambda>c. \<not> p c) s)"

text \<open>A token: at least one character, all of them word characters.\<close>

definition is_token :: "ucd \<Rightarrow> ustring \<Rightarrow> bool" where
  "is_token U t = (t \<noteq> [] \<and> list_all (word_char U) t)"

section \<open>Example sheets\<close>

text \<open>
  A sheet with the columns \<open>patient_id\<close> and \<open>Report\<close>: one record per given report
  cell, the identifiers counting up from 1.
\<close>

primrec numbered_rows :: "int \<Rightarrow> 'a pyval list \<Rightarrow> (ustring \<Rightarrow> 'a pyval) list" where
  "numbered_rows n [] = []"
| "numbered_rows n (report # reports) =
     (\<lambda>c. if c = u ''patient_id'' then PInt n else report) # numbered_rows (n + 1) reports"

definition report_sheet :: "'a pyval list \<Rightarrow> 'a sheet" where
  "report_sheet reports =
     \<lparr>columns = [u ''patient_id'', u ''Report''], records = numbered_rows 1 reports\<rparr>"

section \<open>Evaluation on concrete inputs\<close>

lemmas ascii_defs = u_def ascii_ucd_def ascii_isalnum_def ascii_isspace_def ascii_lower_def

lemmas matcher_defs = tokenize_def word_char_def strip_def usable_def normalized_keywords_def
  extract_keywords_from_text_def Let_def

lemmas sheet_defs = process_sheet_def sheet_keywords_def DataFrame_def empty_frame_def
  text_or_empty_def DUTCH_STOPWORDS_def report_sheet_def

section \<open>Properties of the keyword matcher\<close>

lemma str_contains_sublist: "str_contains kw t = sublist kw t"
  by (induction t) (auto simp: sublist_Cons_right)

lemma token_loop_ex: "token_loop kw ts = (\<exists>t \<in> set ts. sublist kw t)"
  by (induction ts) (auto simp: str_contains_sublist)

lemma kw_loop_filter: "kw_loop kws ts matched = matched @ filter (\<lambda>kw. token_loop kw ts) kws"
  by (induction kws arbitrary: matched) auto

lemma extract_whole_word:
  "extract_keywords_from_text U text kws False =
     filter (\<lambda>k. k \<in> set (tokenize U text)) (normalized_keywords U kws)"
  by (simp add: extract_keywords_from_text_def Let_def)

lemma extract_substring:
  "extract_keywords_from_text U text kws True =
     filter (\<lambda>k. \<exists>t \<in> set (tokenize U text). sublist k t) (normalized_keywords U kws)"
  by (simp add: extract_keywords_from_text_def Let_def kw_loop_filter token_loop_ex)

text \<open>
  Claim C4.  In whole-word mode a normalized keyword is in the result exactly when it is
  one of the tokens of the text, and two texts with the same set of tokens (one of them
  repeating tokens of the other, say) give the same result.
\<close>

theorem whole_word_match_iff_token:
  "(k \<in> set (normalized_keywords U kws) \<longrightarrow>
      (k \<in> set (extract_keywords_from_text U text kws False) \<longleftrightarrow> k \<in> set (tokenize U text)))
   \<and> (set (tokenize U text) = set (tokenize U text') \<longrightarrow>
        extract_keywords_from_text U text kws False = extract_keywords_from_text U text' kws False)"
  by (simp add: extract_whole_word)

theorem whole_word_match_iff_token_witness:
  "u ''pain'' \<in> set (normalized_keywords ascii_ucd [u '' Pain ''])
   \<and> u ''pain'' \<in> set (extract_keywords_from_text ascii_ucd
        (PStr (u ''the pain is bad'') :: unit pyval) [u '' Pain ''] False)
   \<and> u ''pain'' \<in> set (tokenize ascii_ucd (PStr (u ''the pain is bad'') :: unit pyval))
   \<and> set (tokenize ascii_ucd (PStr (u ''the pain is bad'') :: unit pyval)) =
       set (tokenize ascii_ucd (PStr (u ''bad pain, the pain is bad'') :: unit pyval))
   \<and> extract_keywords_from_text ascii_ucd
        (PStr (u ''the pain is bad'') :: unit pyval) [u '' Pain ''] False =
       extract_keywords_from_text ascii_ucd
        (PStr (u ''bad pain, the pain is bad'') :: unit pyval) [u '' Pain ''] False"
proof -
  have k: "u ''pain'' \<in> set (normalized_keywords ascii_ucd [u '' Pain ''])"
    by (simp add: ascii_defs matcher_defs)
  have t: "u ''pain'' \<in> set (tokenize ascii_ucd (PStr (u ''the pain is bad'') :: unit pyval))"
    by (simp add: ascii_defs matcher_defs)
  have s: "set (tokenize ascii_ucd (PStr (u ''the pain is bad'') :: unit pyval)) =
       set (tokenize ascii_ucd (PStr (u ''bad pain, the pain is bad'') :: unit pyval))"
    by (simp add: ascii_defs matcher_defs insert_commute)
  note inst = whole_word_match_iff_token [of "u ''pain''" ascii_ucd "[u '' Pain '']"
        "PStr (u ''the pain is bad'') :: unit pyval" "PStr (u ''bad pain, the pain is bad'')"]
  from inst k t have m: "u ''pain'' \<in> set (extract_keywords_from_text ascii_ucd
      (PStr (u ''the pain is bad'') :: unit pyval) [u '' Pain ''] False)"
    by blast
  from inst s have e: "extract_keywords_from_text ascii_ucd
        (PStr (u ''the pain is bad'') :: unit pyval) [u '' Pain ''] False =
       extract_keywords_from_text ascii_ucd
        (PStr (u ''bad pain, the pain is bad'') :: unit pyval) [u '' Pain ''] False"
    by blast
  from k m t s e show ?thesis by blast
qed

text \<open>
  Claim C5.  In substring mode a normalized keyword is in the result exactly when it is a
  contiguous part of at least one token of the text; and in either mode a text without
  tokens gives the empty result.
\<close>

theorem substring_match_iff_in_token:
  "(k \<in> set (normalized_keywords U kws) \<longrightarrow>
      (k \<in> set (extract_keywords_from_text U text kws True) \<longleftrightarrow>
       (\<exists>t \<in> set (tokenize U text). sublist k t)))
   \<and> (tokenize U text = [] \<longrightarrow> extract_keywords_from_text U text kws use_substring = [])"
  by (simp add: extract_substring) (simp add: extract_keywords_from_text_def)

theorem substring_match_iff_in_token_witness:
  "u ''pijn'' \<in> set (normalized_keywords ascii_ucd [u ''pijn''])
   \<and> sublist (u ''pijn'') (u ''pijnstilling'')
   \<and> u ''pijnstilling'' \<in> set (tokenize ascii_ucd (PStr (u ''Start pijnstilling.'') :: unit pyval))
   \<and> u ''pijn'' \<in> set (extract_keywords_from_text ascii_ucd
        (PStr (u ''Start pijnstilling.'') :: unit pyval) [u ''pijn''] True)
   \<and> tokenize ascii_ucd (PStr (u '' ... '') :: unit pyval) = []
   \<and> extract_keywords_from_text ascii_ucd (PStr (u '' ... '') :: unit pyval) [u ''pijn''] True = []"
proof -
  have k: "u ''pijn'' \<in> set (normalized_keywords ascii_ucd [u ''pijn''])"
    by (simp add: ascii_defs matcher_defs)
  have t: "u ''pijnstilling'' \<in> set (tokenize ascii_ucd (PStr (u ''Start pijnstilling.'') :: unit pyval))"
    by (simp add: ascii_defs matcher_defs)
  have c: "sublist (u ''pijn'') (u ''pijnstilling'')"
    by (simp add: u_def sublist_Cons_right)
  have n: "tokenize ascii_ucd (PStr (u '' ... '') :: unit pyval) = []"
    by (simp add: ascii_defs matcher_defs)
  note a = substring_match_iff_in_token [of "u ''pijn''" ascii_ucd "[u ''pijn'']"
      "PStr (u ''Start pijnstilling.'') :: unit pyval" True]
  note b = substring_match_iff_in_token [of "u ''pijn''" ascii_ucd "[u ''pijn'']"
      "PStr (u '' ... '') :: unit pyval" True]
  from a k t c have m: "u ''pijn'' \<in> set (extract_keywords_from_text ascii_ucd
        (PStr (u ''Start pijnstilling.'') :: unit pyval) [u ''pijn''] True)"
    by blast
  from b n have e: "extract_keywords_from_text ascii_ucd (PStr (u '' ... '') :: unit pyval) [u ''pijn''] True = []"
    by blast
  from k c t m n e show ?thesis by blast
qed

text \<open>
  Claim C10.  Every keyword returned in whole-word mode is returned in substring mode:
  substring matching only adds matches.
\<close>

theorem whole_word_subset_substring:
  "set (extract_keywords_from_text U text kws False) \<subseteq> set (extract_keywords_from_text U text kws True)"
  by (auto simp: extract_whole_word extract_substring)

theorem whole_word_subset_substring_witness:
  "set (extract_keywords_from_text ascii_ucd (PStr (u ''pijn en pijnstilling'') :: unit pyval)
          [u ''pijn'', u ''stilling''] False)
   \<subseteq> set (extract_keywords_from_text ascii_ucd (PStr (u ''pijn en pijnstilling'') :: unit pyval)
          [u ''pijn'', u ''stilling''] True)
   \<and> extract_keywords_from_text ascii_ucd (PStr (u ''pijn en pijnstilling'') :: unit pyval)
          [u ''pijn'', u ''stilling''] False = [u ''pijn'']
   \<and> extract_keywords_from_text ascii_ucd (PStr (u ''pijn en pijnstilling'') :: unit pyval)
          [u ''pijn'', u ''stilling''] True = [u ''pijn'', u ''stilling'']"
proof -
  have a: "extract_keywords_from_text ascii_ucd (PStr (u ''pijn en pijnstilling'') :: unit pyval)
          [u ''pijn'', u ''stilling''] False = [u ''pijn'']"
    by (simp add: ascii_defs matcher_defs)
  have b: "extract_keywords_from_text ascii_ucd (PStr (u ''pijn en pijnstilling'') :: unit pyval)
          [u ''pijn'', u ''stilling''] True = [u ''pijn'', u ''stilling'']"
    by (simp add: ascii_defs matcher_defs)
  note inst = whole_word_subset_substring [of ascii_ucd
      "PStr (u ''pijn en pijnstilling'') :: unit pyval" "[u ''pijn'', u ''stilling'']"]
  from inst a b show ?thesis by (intro conjI)
qed

section \<open>Properties of the tokenizer\<close>

lemma split_at_separators_not_Nil: "split_at_separators sep s \<noteq> []"
  by (induction s) (auto split: list.splits)

lemma split_run:
  "\<forall>c \<in> set run. \<not> sep c \<Longrightarrow>
   split_at_separators sep (run @ rest) =
     (run @ hd (split_at_separators sep rest)) # tl (split_at_separators sep rest)"
proof (induction run)
  case Nil
  then show ?case using split_at_separators_not_Nil [of sep rest] by simp
next
  case (Cons c run)
  then show ?case by simp
qed

lemma maximal_runs_Nil: "maximal_runs p [] = []"
  by (simp add: maximal_runs_def)

lemma maximal_runs_sep: "\<not> p c \<Longrightarrow> maximal_runs p (c # cs) = maximal_runs p cs"
  by (simp add: maximal_runs_def)

lemma maximal_runs_run:
  assumes "p c"
  shows "maximal_runs p (c # cs) = (c # takeWhile p cs) # maximal_runs p (dropWhile p cs)"
proof -
  let ?sep = "\<lambda>c. \<not> p c"
  let ?run = "c # takeWhile p cs"
  let ?rest = "dropWhile p cs"
  have run: "\<forall>x \<in> set ?run. \<not> ?sep x"
    using assms by (auto dest: set_takeWhileD)
  have "split_at_separators ?sep (c # cs) = split_at_separators ?sep (?run @ ?rest)"
    by simp
  also have "\<dots> = (?run @ hd (split_at_separators ?sep ?rest)) # tl (split_at_separators ?sep ?rest)"
    by (rule split_run [OF run])
  finally have S: "split_at_separators ?sep (c # cs) =
      (?run @ hd (split_at_separators ?sep ?rest)) # tl (split_at_separators ?sep ?rest)" .
  show ?thesis
  proof (cases ?rest)
    case Nil
    show ?thesis unfolding maximal_runs_def S Nil by simp
  next
    case (Cons d rest)
    have "\<not> p d" using hd_dropWhile [of p cs] Cons by auto
    then have R: "split_at_separators ?sep (d # rest) = [] # split_at_separators ?sep rest"
      by simp
    show ?thesis unfolding maximal_runs_def S Cons R by simp
  qed
qed


lemma findall_word_maximal_runs: "findall_word p s = maximal_runs p s"
proof (induction p s rule: findall_word.induct)
  case (1 w)
  show ?case by (simp add: maximal_runs_Nil)
next
  case (2 w c cs)
  show ?case
  proof (cases "w c")
    case True
    with 2 show ?thesis by (simp add: maximal_runs_run)
  next
    case False
    with 2 show ?thesis by (simp add: maximal_runs_sep)
  qed
qed

lemma maximal_runs_tokens: "t \<in> set (findall_word p s) \<Longrightarrow> t \<noteq> [] \<and> list_all p t"
proof (induction p s rule: findall_word.induct)
  case (1 w)
  then show ?case by simp
next
  case (2 w c cs)
  show ?case
  proof (cases "w c")
    case True
    with 2(3) have "t = c # takeWhile w cs \<or> t \<in> set (findall_word w (dropWhile w cs))"
      by simp
    then show ?thesis
    proof
      assume "t = c # takeWhile w cs"
      with True show ?thesis by (auto simp: list_all_iff dest: set_takeWhileD)
    next
      assume "t \<in> set (findall_word w (dropWhile w cs))"
      with 2(1) True show ?thesis by blast
    qed
  next
    case False
    with 2(3) have "t \<in> set (findall_word w cs)" by simp
    with 2(2) False show ?thesis by blast
  qed
qed

text \<open>
  What \<open>tokenize\<close> computes: the empty list on a value that is not a string, and on a
  string, from left to right, the maximal runs of word characters of the lowercased
  text, a word character being a letter, a digit or the underscore; no token is empty.
\<close>

lemma tokenize_word_runs:
  "tokenize U text =
     (case text of
        PStr s \<Rightarrow> maximal_runs (word_char U) (lower U s)
      | PInt n \<Rightarrow> []
      | PObj x \<Rightarrow> [])
   \<and> list_all (is_token U) (tokenize U text)"
proof
  show "tokenize U text =
     (case text of PStr s \<Rightarrow> maximal_runs (word_char U) (lower U s) | PInt n \<Rightarrow> [] | PObj x \<Rightarrow> [])"
    by (cases "text") (simp_all add: tokenize_def findall_word_maximal_runs)
  show "list_all (is_token U) (tokenize U text)"
    by (cases "text") (auto simp: tokenize_def list_all_iff is_token_def dest: maximal_runs_tokens)
qed

lemma tokenize_word_runs_example:
  "tokenize ascii_ucd (PStr (u ''Pijn_score: 7/10!'') :: unit pyval) =
     [u ''pijn_score'', u ''7'', u ''10'']
   \<and> maximal_runs (word_char ascii_ucd) (lower ascii_ucd (u ''Pijn_score: 7/10!'')) =
     [u ''pijn_score'', u ''7'', u ''10'']
   \<and> tokenize ascii_ucd (PObj () :: unit pyval) = []
   \<and> list_all (is_token ascii_ucd) (tokenize ascii_ucd (PStr (u ''Pijn_score: 7/10!'') :: unit pyval))"
proof -
  have v: "tokenize ascii_ucd (PStr (u ''Pijn_score: 7/10!'') :: unit pyval) =
     [u ''pijn_score'', u ''7'', u ''10'']"
    by (simp add: ascii_defs matcher_defs)
  note a = tokenize_word_runs [of ascii_ucd "PStr (u ''Pijn_score: 7/10!'') :: unit pyval"]
  note b = tokenize_word_runs [of ascii_ucd "PObj () :: unit pyval"]
  from a v have r: "maximal_runs (word_char ascii_ucd) (lower ascii_ucd (u ''Pijn_score: 7/10!'')) =
     [u ''pijn_score'', u ''7'', u ''10'']"
    by simp
  from b have n: "tokenize ascii_ucd (PObj () :: unit pyval) = []" by simp
  from a have l: "list_all (is_token ascii_ucd) (tokenize ascii_ucd (PStr (u ''Pijn_score: 7/10!'') :: unit pyval))"
    by (rule conjunct2)
  from v r n l show ?thesis by (intro conjI)
qed

text \<open>
  Claim C3.  On a string \<open>tokenize\<close> should return exactly the maximal runs of letters
  and digits of the lowercased text, every other character separating.  The underscore
  is no letter and no digit, yet it does not separate: \<open>a_b\<close> is one token, where the
  runs of letters and digits are \<open>a\<close> and \<open>b\<close>; and the keyword \<open>pijn\<close> is not found
  as a whole word in \<open>pijn_score 7\<close>, whose tokens are \<open>pijn_score\<close> and \<open>7\<close>.
\<close>

theorem underscore_joins_tokens:
  "tokenize ascii_ucd (PStr (u ''a_b'') :: unit pyval) = [u ''a_b'']
   \<and> maximal_runs (isalnum ascii_ucd) (lower ascii_ucd (u ''a_b'')) = [u ''a'', u ''b'']
   \<and> tokenize ascii_ucd (PStr (u ''a_b'') :: unit pyval) \<noteq>
       maximal_runs (isalnum ascii_ucd) (lower ascii_ucd (u ''a_b''))
   \<and> tokenize ascii_ucd (PStr (u ''pijn_score 7'') :: unit pyval) = [u ''pijn_score'', u ''7'']
   \<and> maximal_runs (isalnum ascii_ucd) (lower ascii_ucd (u ''pijn_score 7'')) =
       [u ''pijn'', u ''score'', u ''7'']
   \<and> extract_keywords_from_text ascii_ucd (PStr (u ''pijn_score 7'') :: unit pyval)
        [u ''pijn''] False = []"
  by (simp add: ascii_defs matcher_defs maximal_runs_def)

section \<open>Keyword normalization\<close>

lemma extract_filter:
  "extract_keywords_from_text U text kws use_substring =
     filter (\<lambda>k. if use_substring then \<exists>t \<in> set (tokenize U text). sublist k t
                 else k \<in> set (tokenize U text))
       (normalized_keywords U kws)"
proof (cases use_substring)
  case True
  then show ?thesis by (simp add: extract_substring)
next
  case False
  then show ?thesis by (simp add: extract_whole_word)
qed

lemma count_list_filter_le: "count_list (filter P xs) k \<le> count_list xs k"
  by (induction xs) auto

lemma normalized_keywords_drop_unusable:
  "strip U kw = [] \<Longrightarrow>
   normalized_keywords U (pre @ kw # post) = normalized_keywords U (pre @ post)"
  by (simp add: normalized_keywords_def usable_def)

lemma normalized_keywords_nonempty:
  assumes "\<forall>s. s \<noteq> [] \<longrightarrow> lower U s \<noteq> []"
  shows "[] \<notin> set (normalized_keywords U kws)"
proof
  assume "[] \<in> set (normalized_keywords U kws)"
  then obtain kw where "usable U kw" and "lower U (strip U kw) = []"
    by (auto simp: normalized_keywords_def)
  with assms show False by (auto simp: usable_def)
qed

text \<open>
  Claim C6, amended.  The matcher compares the trimmed and lowercased form of each
  candidate keyword, so keyword lists with the same normalized forms give the same
  result; a keyword that is empty after trimming contributes nothing, and no result
  entry is empty (lowercasing keeps a non-empty string non-empty); every keyword entry
  contributes at most one occurrence, whatever the number of tokens it matches: the
  result is a subsequence of the normalized keyword list, a normalized keyword occurs
  in it at most as often as in that list, and only once when the normalized keywords
  are distinct.
\<close>

theorem keywords_normalized_entrywise:
  "(normalized_keywords U kws = normalized_keywords U kws' \<longrightarrow>
      extract_keywords_from_text U text kws use_substring =
      extract_keywords_from_text U text kws' use_substring)
   \<and> (strip U kw = [] \<longrightarrow>
        extract_keywords_from_text U text (pre @ kw # post) use_substring =
        extract_keywords_from_text U text (pre @ post) use_substring)
   \<and> ((\<forall>s. s \<noteq> [] \<longrightarrow> lower U s \<noteq> []) \<longrightarrow>
        [] \<notin> set (extract_keywords_from_text U text kws use_substring))
   \<and> subseq (extract_keywords_from_text U text kws use_substring) (normalized_keywords U kws)
   \<and> count_list (extract_keywords_from_text U text kws use_substring) k
        \<le> count_list (normalized_keywords U kws) k
   \<and> (distinct (normalized_keywords U kws) \<longrightarrow>
        distinct (extract_keywords_from_text U text kws use_substring))"
proof (intro conjI impI)
  assume "normalized_keywords U kws = normalized_keywords U kws'"
  then show "extract_keywords_from_text U text kws use_substring =
      extract_keywords_from_text U text kws' use_substring"
    by (simp only: extract_filter)
next
  assume "strip U kw = []"
  then show "extract_keywords_from_text U text (pre @ kw # post) use_substring =
        extract_keywords_from_text U text (pre @ post) use_substring"
    by (simp only: extract_filter normalized_keywords_drop_unusable)
next
  assume "\<forall>s. s \<noteq> [] \<longrightarrow> lower U s \<noteq> []"
  then have "[] \<notin> set (normalized_keywords U kws)"
    by (rule normalized_keywords_nonempty)
  then show "[] \<notin> set (extract_keywords_from_text U text kws use_substring)"
    unfolding extract_filter by simp
next
  show "subseq (extract_keywords_from_text U text kws use_substring) (normalized_keywords U kws)"
    by (simp only: extract_filter subseq_filter_left)
next
  show "count_list (extract_keywords_from_text U text kws use_substring) k
        \<le> count_list (normalized_keywords U kws) k"
    by (simp only: extract_filter count_list_filter_le)
next
  assume "distinct (normalized_keywords U kws)"
  then show "distinct (extract_keywords_from_text U text kws use_substring)"
    by (simp only: extract_filter distinct_filter)
qed

lemma ascii_lower_nonempty: "\<forall>s. s \<noteq> [] \<longrightarrow> lower ascii_ucd s \<noteq> []"
  by (simp add: ascii_ucd_def ascii_lower_def)

theorem keywords_normalized_entrywise_witness:
  "normalized_keywords ascii_ucd [u '' Pain '', u ''onrust''] =
     normalized_keywords ascii_ucd [u ''pain'', u '''', u ''Onrust '']
   \<and> extract_keywords_from_text ascii_ucd (PStr (u ''painless, pain'') :: unit pyval)
        [u '' Pain '', u ''onrust''] True =
      extract_keywords_from_text ascii_ucd (PStr (u ''painless, pain'') :: unit pyval)
        [u ''pain'', u '''', u ''Onrust ''] True
   \<and> strip ascii_ucd (u ''  '') = []
   \<and> extract_keywords_from_text ascii_ucd (PStr (u ''painless, pain'') :: unit pyval)
        ([u ''pain''] @ u ''  '' # [u ''less'']) True =
      extract_keywords_from_text ascii_ucd (PStr (u ''painless, pain'') :: unit pyval)
        ([u ''pain''] @ [u ''less'']) True
   \<and> [] \<notin> set (extract_keywords_from_text ascii_ucd (PStr (u ''painless, pain'') :: unit pyval)
        [u '' Pain '', u ''onrust''] True)
   \<and> distinct (normalized_keywords ascii_ucd [u '' Pain '', u ''onrust''])
   \<and> distinct (extract_keywords_from_text ascii_ucd (PStr (u ''painless, pain'') :: unit pyval)
        [u '' Pain '', u ''onrust''] True)
   \<and> extract_keywords_from_text ascii_ucd (PStr (u ''painless, pain'') :: unit pyval)
        [u '' Pain '', u ''onrust''] True = [u ''pain'']"
proof -
  let ?text = "PStr (u ''painless, pain'') :: unit pyval"
  have n: "normalized_keywords ascii_ucd [u '' Pain '', u ''onrust''] =
     normalized_keywords ascii_ucd [u ''pain'', u '''', u ''Onrust '']"
    by (simp add: ascii_defs matcher_defs)
  have s: "strip ascii_ucd (u ''  '') = []"
    by (simp add: ascii_defs matcher_defs)
  have d: "distinct (normalized_keywords ascii_ucd [u '' Pain '', u ''onrust''])"
    by (simp add: ascii_defs matcher_defs)
  have v: "extract_keywords_from_text ascii_ucd ?text [u '' Pain '', u ''onrust''] True = [u ''pain'']"
    by (simp add: ascii_defs matcher_defs)
  note a = keywords_normalized_entrywise [of ascii_ucd "[u '' Pain '', u ''onrust'']"
      "[u ''pain'', u '''', u ''Onrust '']" "?text" True "u ''  ''" "[u ''pain'']" "[u ''less'']" "u ''pain''"]
  from a n have 1: "extract_keywords_from_text ascii_ucd ?text [u '' Pain '', u ''onrust''] True =
      extract_keywords_from_text ascii_ucd ?text [u ''pain'', u '''', u ''Onrust ''] True"
    by blast
  from a s have 2: "extract_keywords_from_text ascii_ucd ?text ([u ''pain''] @ u ''  '' # [u ''less'']) True =
      extract_keywords_from_text ascii_ucd ?text ([u ''pain''] @ [u ''less'']) True"
    by blast
  from a ascii_lower_nonempty have 3: "[] \<notin> set (extract_keywords_from_text ascii_ucd ?text
        [u '' Pain '', u ''onrust''] True)"
    by blast
  from a d have 4: "distinct (extract_keywords_from_text ascii_ucd ?text [u '' Pain '', u ''onrust''] True)"
    by blast
  from n 1 s 2 3 d 4 v show ?thesis by (intro conjI)
qed

text \<open>
  Two entries with the same normalized form are both reported: the normalized keyword
  appears twice in the result.
\<close>

theorem keyword_reported_twice_counterexample:
  "extract_keywords_from_text ascii_ucd (PStr (u ''pain'') :: unit pyval)
     [u '' Pain '', u ''pain'', u ''''] False = [u ''pain'', u ''pain'']
   \<and> count_list (extract_keywords_from_text ascii_ucd (PStr (u ''pain'') :: unit pyval)
        [u '' Pain '', u ''pain'', u ''''] False) (u ''pain'') = 2"
  by (simp add: ascii_defs matcher_defs)

section \<open>Properties of processing a sheet\<close>

lemma rows_row_loop:
  "fst (row_loop U kws pidc textc sub rs st) =
     fst st @ map (\<lambda>r. flag_loop kws
                          (extract_keywords_from_text U (text_or_empty (r textc)) kws sub)
                          [(pidc, r pidc)]) rs"
  by (induction rs arbitrary: st) (simp_all add: Let_def)

lemma length_row_loop:
  "length (fst (row_loop U kws pidc textc sub rs st)) = length (fst st) + length rs"
  by (induction rs arbitrary: st) (simp_all add: Let_def)

lemma corpus_row_loop:
  "snd (row_loop U kws pidc textc sub rs st) =
     snd st @ concat (map (\<lambda>r. filter (\<lambda>t. t \<notin> DUTCH_STOPWORDS)
                                   (tokenize U (text_or_empty (r textc)))) rs)"
  by (induction rs arbitrary: st) (simp_all add: Let_def)

lemma dict_set_not_Nil: "dict_set d k v \<noteq> []"
  by (induction d k v rule: dict_set.induct) auto

lemma flag_loop_not_Nil: "row \<noteq> [] \<Longrightarrow> flag_loop kws matched row \<noteq> []"
  by (induction kws arbitrary: row) (simp_all add: dict_set_not_Nil)

lemma rows_row_loop_not_Nil:
  "\<forall>row \<in> set (fst (row_loop U kws pidc textc sub rs ([], []))). row \<noteq> []"
  by (simp add: rows_row_loop flag_loop_not_Nil)

lemma add_keys_prefix: "\<exists>more. add_keys cols ks = cols @ more"
proof (induction ks arbitrary: cols)
  case Nil
  show ?case by simp
next
  case (Cons k ks)
  show ?case
  proof (cases "k \<in> set cols")
    case True
    with Cons.IH [of cols] show ?thesis by simp
  next
    case False
    from Cons.IH [of "cols @ [k]"] obtain more where "add_keys (cols @ [k]) ks = (cols @ [k]) @ more"
      by blast
    with False show ?thesis by simp
  qed
qed

lemma add_keys_not_Nil: "cols \<noteq> [] \<or> ks \<noteq> [] \<Longrightarrow> add_keys cols ks \<noteq> []"
proof (cases ks)
  case Nil
  assume "cols \<noteq> [] \<or> ks \<noteq> []"
  with Nil show ?thesis by simp
next
  case (Cons k ks')
  obtain more where "add_keys (if k \<in> set cols then cols else cols @ [k]) ks' =
      (if k \<in> set cols then cols else cols @ [k]) @ more"
    using add_keys_prefix by blast
  with Cons show ?thesis by (auto split: if_splits)
qed

lemma fold_add_keys_not_Nil:
  "cols \<noteq> [] \<Longrightarrow> fold (\<lambda>r cols. add_keys cols (map fst r)) rows cols \<noteq> []"
  by (induction rows arbitrary: cols) (simp_all add: add_keys_not_Nil)

lemma DataFrame_not_empty:
  assumes "rows \<noteq> []" and "\<forall>row \<in> set rows. row \<noteq> []"
  shows "\<not> empty_frame (DataFrame rows)"
proof -
  from assms obtain r rs where rows: "rows = r # rs" and r: "r \<noteq> []"
    by (cases rows) auto
  have "add_keys [] (map fst r) \<noteq> []"
    using r by (simp add: add_keys_not_Nil)
  then have "fold (\<lambda>r cols. add_keys cols (map fst r)) rs (add_keys [] (map fst r)) \<noteq> []"
    by (rule fold_add_keys_not_Nil)
  then show ?thesis
    by (simp add: empty_frame_def DataFrame_def rows)
qed

lemma process_sheet_missing:
  assumes "pidc \<notin> set (columns df) \<or> textc \<notin> set (columns df)"
  shows "process_sheet U (Inr df) kws pidc textc sub =
     Inl (MissingColumns (filter (\<lambda>c. c \<notin> set (columns df)) [pidc, textc]) (columns df))"
  using assms by (auto simp: process_sheet_def Let_def)

lemma process_sheet_present:
  assumes "pidc \<in> set (columns df)" and "textc \<in> set (columns df)"
  shows "process_sheet U (Inr df) kws pidc textc sub =
     Inr (let st = row_loop U (sheet_keywords U kws) pidc textc sub (records df) ([], [])
          in (if empty_frame (DataFrame (fst st))
              then \<lparr>t_columns = pidc # sheet_keywords U kws, t_rows = []\<rparr>
              else DataFrame (fst st), snd st))"
proof -
  from assms have "filter (\<lambda>c. c \<notin> set (columns df)) [pidc, textc] = []"
    by simp
  then show ?thesis
    by (simp add: process_sheet_def Let_def)
qed

lemma empty_frame_row_loop:
  "empty_frame (DataFrame (fst (row_loop U kws pidc textc sub rs ([], [])))) = (rs = [])"
proof (cases rs)
  case Nil
  then show ?thesis by (simp add: empty_frame_def DataFrame_def)
next
  case (Cons r rs')
  from Cons have "rs \<noteq> []" by simp
  then have "fst (row_loop U kws pidc textc sub rs ([], [])) \<noteq> []"
    by (simp add: rows_row_loop)
  then have "\<not> empty_frame (DataFrame (fst (row_loop U kws pidc textc sub rs ([], []))))"
    using rows_row_loop_not_Nil by (rule DataFrame_not_empty)
  with Cons show ?thesis by simp
qed

text \<open>
  Claim C7.  On a loaded sheet \<open>process_sheet\<close> raises exactly when the identifier
  column or the text column is not among the sheet's columns; the error carries the
  sheet's own column list; and it is decided by the columns alone, whatever the records
  are: no row is built and no token collected.
\<close>

theorem missing_column_error:
  "(isl (process_sheet U (Inr df) kws pidc textc sub) \<longleftrightarrow>
      pidc \<notin> set (columns df) \<or> textc \<notin> set (columns df))
   \<and> (process_sheet U (Inr df) kws pidc textc sub = Inl e \<longrightarrow>
        e = MissingColumns (filter (\<lambda>c. c \<notin> set (columns df)) [pidc, textc]) (columns df)
        \<and> process_sheet U (Inr (df\<lparr>records := rs\<rparr>)) kws pidc textc sub = Inl e)"
proof (cases "pidc \<notin> set (columns df) \<or> textc \<notin> set (columns df)")
  case True
  then have "pidc \<notin> set (columns (df\<lparr>records := rs\<rparr>)) \<or> textc \<notin> set (columns (df\<lparr>records := rs\<rparr>))"
    by simp
  then have other: "process_sheet U (Inr (df\<lparr>records := rs\<rparr>)) kws pidc textc sub =
     Inl (MissingColumns (filter (\<lambda>c. c \<notin> set (columns df)) [pidc, textc]) (columns df))"
    by (simp add: process_sheet_missing)
  have this_one: "process_sheet U (Inr df) kws pidc textc sub =
     Inl (MissingColumns (filter (\<lambda>c. c \<notin> set (columns df)) [pidc, textc]) (columns df))"
    using True by (rule process_sheet_missing)
  show ?thesis
    unfolding this_one other using True by auto
next
  case False
  then have "pidc \<in> set (columns df)" and "textc \<in> set (columns df)" by simp_all
  then show ?thesis by (simp add: process_sheet_present)
qed

theorem missing_column_error_witness:
  "isl (process_sheet ascii_ucd (Inr (report_sheet [PStr (u ''veel pijn'')]) :: unit + unit sheet)
          [u ''pijn''] (u ''missing_col'') (u ''Report'') False)
   \<and> u ''missing_col'' \<notin> set (columns (report_sheet [PStr (u ''veel pijn'')] :: unit sheet))
   \<and> process_sheet ascii_ucd (Inr (report_sheet [PStr (u ''veel pijn'')]) :: unit + unit sheet)
          [u ''pijn''] (u ''missing_col'') (u ''Report'') False =
        Inl (MissingColumns [u ''missing_col''] [u ''patient_id'', u ''Report''])
   \<and> process_sheet ascii_ucd
          (Inr ((report_sheet [PStr (u ''veel pijn'')]) \<lparr>records := []\<rparr>) :: unit + unit sheet)
          [u ''pijn''] (u ''missing_col'') (u ''Report'') False =
        Inl (MissingColumns [u ''missing_col''] [u ''patient_id'', u ''Report''])"
proof -
  let ?S = "report_sheet [PStr (u ''veel pijn'')] :: unit sheet"
  let ?e = "MissingColumns [u ''missing_col''] [u ''patient_id'', u ''Report''] :: unit error"
  have a: "u ''missing_col'' \<notin> set (columns ?S)"
    by (simp add: ascii_defs sheet_defs)
  have v: "process_sheet ascii_ucd (Inr ?S :: unit + unit sheet)
          [u ''pijn''] (u ''missing_col'') (u ''Report'') False = Inl ?e"
    by (simp add: ascii_defs sheet_defs)
  note inst = missing_column_error [of ascii_ucd ?S "[u ''pijn'']" "u ''missing_col''"
      "u ''Report''" False ?e "[]"]
  from inst a have i: "isl (process_sheet ascii_ucd (Inr ?S :: unit + unit sheet)
          [u ''pijn''] (u ''missing_col'') (u ''Report'') False)"
    by blast
  from inst v have r: "process_sheet ascii_ucd (Inr (?S \<lparr>records := []\<rparr>) :: unit + unit sheet)
          [u ''pijn''] (u ''missing_col'') (u ''Report'') False = Inl ?e"
    by blast
  from i a v r show ?thesis by (intro conjI)
qed

text \<open>
  When both columns are present \<open>process_sheet\<close> returns, and the table it returns has
  one row per record of the sheet, whatever the keywords; with no record at all its
  columns are the identifier column followed by the keywords as trimmed.
\<close>

lemma one_row_per_record:
  assumes "pidc \<in> set (columns df)" and "textc \<in> set (columns df)"
  shows "\<exists>tbl corpus. process_sheet U (Inr df) kws pidc textc sub = Inr (tbl, corpus)
     \<and> length (t_rows tbl) = length (records df)
     \<and> (records df = [] \<longrightarrow> t_columns tbl = pidc # sheet_keywords U kws)"
proof -
  let ?st = "row_loop U (sheet_keywords U kws) pidc textc sub (records df) ([], [])"
  let ?tbl = "if records df = []
              then \<lparr>t_columns = pidc # sheet_keywords U kws, t_rows = []\<rparr>
              else DataFrame (fst ?st)"
  have "process_sheet U (Inr df) kws pidc textc sub = Inr (?tbl, snd ?st)"
    using assms by (simp add: process_sheet_present Let_def empty_frame_row_loop)
  moreover have "length (t_rows ?tbl) = length (records df)"
    by (simp add: DataFrame_def length_row_loop)
  moreover have "records df = [] \<longrightarrow> t_columns ?tbl = pidc # sheet_keywords U kws"
    by simp
  ultimately show ?thesis by blast
qed

lemma one_row_per_record_example:
  "(\<exists>tbl corpus.
        process_sheet ascii_ucd (Inr (report_sheet []) :: unit + unit sheet)
          [u '' Pijn '', u '' '', u ''onrust''] (u ''patient_id'') (u ''Report'') False = Inr (tbl, corpus)
        \<and> length (t_rows tbl) = length (records (report_sheet [] :: unit sheet))
        \<and> (records (report_sheet [] :: unit sheet) = [] \<longrightarrow>
             t_columns tbl = u ''patient_id'' # sheet_keywords ascii_ucd [u '' Pijn '', u '' '', u ''onrust'']))
   \<and> sheet_keywords ascii_ucd [u '' Pijn '', u '' '', u ''onrust''] = [u ''Pijn'', u ''onrust'']
   \<and> records (report_sheet [] :: unit sheet) = []
   \<and> (\<exists>tbl corpus.
        process_sheet ascii_ucd
          (Inr (report_sheet [PStr (u ''veel pijn''), PObj (), PStr (u ''onrust'')]) :: unit + unit sheet)
          [] (u ''patient_id'') (u ''Report'') True = Inr (tbl, corpus)
        \<and> length (t_rows tbl) = 3)"
proof -
  let ?S = "report_sheet [] :: unit sheet"
  let ?T = "report_sheet [PStr (u ''veel pijn''), PObj (), PStr (u ''onrust'')] :: unit sheet"
  have a: "u ''patient_id'' \<in> set (columns ?S)"
    by (simp add: ascii_defs sheet_defs)
  have b: "u ''Report'' \<in> set (columns ?S)"
    by (simp add: ascii_defs sheet_defs)
  have k: "sheet_keywords ascii_ucd [u '' Pijn '', u '' '', u ''onrust''] = [u ''Pijn'', u ''onrust'']"
    by (simp add: ascii_defs sheet_defs matcher_defs)
  have n: "records ?S = []"
    by (simp add: report_sheet_def)
  have a': "u ''patient_id'' \<in> set (columns ?T)"
    by (simp add: ascii_defs sheet_defs)
  have b': "u ''Report'' \<in> set (columns ?T)"
    by (simp add: ascii_defs sheet_defs)
  have n': "length (records ?T) = 3"
    by (simp add: report_sheet_def)
  note inst = one_row_per_record [OF a b, of ascii_ucd "[u '' Pijn '', u '' '', u ''onrust'']" False]
  from one_row_per_record [OF a' b', of ascii_ucd "[]" True] n'
  have three: "\<exists>tbl corpus.
        process_sheet ascii_ucd (Inr ?T :: unit + unit sheet)
          [] (u ''patient_id'') (u ''Report'') True = Inr (tbl, corpus)
        \<and> length (t_rows tbl) = 3"
    by (simp only:) blast
  from inst k n three show ?thesis by (intro conjI)
qed


text \<open>
  Claim C2, amended.  The corpus returned is the concatenation, in scan order, of every
  record's tokens with the stopwords removed: every token of a record's text that is
  not a stopword occurs in it, and no stopword does.
\<close>

theorem corpus_without_stopwords:
  assumes "process_sheet U (Inr df) kws pidc textc sub = Inr (tbl, corpus)"
  shows "corpus = concat (map (\<lambda>r. filter (\<lambda>t. t \<notin> DUTCH_STOPWORDS)
                                     (tokenize U (text_or_empty (r textc)))) (records df))
     \<and> (\<forall>r \<in> set (records df). \<forall>t \<in> set (tokenize U (text_or_empty (r textc))).
            t \<notin> DUTCH_STOPWORDS \<longrightarrow> t \<in> set corpus)
     \<and> set corpus \<inter> DUTCH_STOPWORDS = {}"
proof -
  have present: "pidc \<in> set (columns df) \<and> textc \<in> set (columns df)"
  proof (rule ccontr)
    assume "\<not> ?thesis"
    then have "pidc \<notin> set (columns df) \<or> textc \<notin> set (columns df)" by simp
    with assms show False by (simp add: process_sheet_missing)
  qed
  with assms have c: "corpus = concat (map (\<lambda>r. filter (\<lambda>t. t \<notin> DUTCH_STOPWORDS)
                                     (tokenize U (text_or_empty (r textc)))) (records df))"
    by (simp add: process_sheet_present Let_def corpus_row_loop)
  show ?thesis
  proof (intro conjI)
    show "corpus = concat (map (\<lambda>r. filter (\<lambda>t. t \<notin> DUTCH_STOPWORDS)
                                     (tokenize U (text_or_empty (r textc)))) (records df))"
      by (rule c)
    show "\<forall>r \<in> set (records df). \<forall>t \<in> set (tokenize U (text_or_empty (r textc))).
            t \<notin> DUTCH_STOPWORDS \<longrightarrow> t \<in> set corpus"
      unfolding c by auto
    show "set corpus \<inter> DUTCH_STOPWORDS = {}"
      unfolding c by auto
  qed
qed

theorem corpus_without_stopwords_witness:
  "process_sheet ascii_ucd
     (Inr (report_sheet [PStr (u ''Patient reports hoofdpijn en onrust''), PObj (),
                         PStr (u ''No complaints'')]) :: unit + unit sheet)
     [u ''hoofdpijn'', u ''onrust'', u ''pijn''] (u ''patient_id'') (u ''Report'') False =
   Inr (\<lparr>t_columns = [u ''patient_id'', u ''hoofdpijn'', u ''onrust'', u ''pijn''],
         t_rows = [[(u ''patient_id'', PInt 1), (u ''hoofdpijn'', PInt 1),
                    (u ''onrust'', PInt 1), (u ''pijn'', PInt 0)],
                   [(u ''patient_id'', PInt 2), (u ''hoofdpijn'', PInt 0),
                    (u ''onrust'', PInt 0), (u ''pijn'', PInt 0)],
                   [(u ''patient_id'', PInt 3), (u ''hoofdpijn'', PInt 0),
                    (u ''onrust'', PInt 0), (u ''pijn'', PInt 0)]]\<rparr>,
        [u ''patient'', u ''reports'', u ''hoofdpijn'', u ''onrust'', u ''no'', u ''complaints''])
   \<and> [u ''patient'', u ''reports'', u ''hoofdpijn'', u ''onrust'', u ''no'', u ''complaints''] =
       concat (map (\<lambda>r. filter (\<lambda>t. t \<notin> DUTCH_STOPWORDS)
                            (tokenize ascii_ucd (text_or_empty (r (u ''Report'')))))
          (records (report_sheet [PStr (u ''Patient reports hoofdpijn en onrust''), PObj (),
                                  PStr (u ''No complaints'')] :: unit sheet)))
   \<and> set [u ''patient'', u ''reports'', u ''hoofdpijn'', u ''onrust'', u ''no'', u ''complaints'']
       \<inter> DUTCH_STOPWORDS = {}"
proof -
  have run: "process_sheet ascii_ucd
     (Inr (report_sheet [PStr (u ''Patient reports hoofdpijn en onrust''), PObj (),
                         PStr (u ''No complaints'')]) :: unit + unit sheet)
     [u ''hoofdpijn'', u ''onrust'', u ''pijn''] (u ''patient_id'') (u ''Report'') False =
   Inr (\<lparr>t_columns = [u ''patient_id'', u ''hoofdpijn'', u ''onrust'', u ''pijn''],
         t_rows = [[(u ''patient_id'', PInt 1), (u ''hoofdpijn'', PInt 1),
                    (u ''onrust'', PInt 1), (u ''pijn'', PInt 0)],
                   [(u ''patient_id'', PInt 2), (u ''hoofdpijn'', PInt 0),
                    (u ''onrust'', PInt 0), (u ''pijn'', PInt 0)],
                   [(u ''patient_id'', PInt 3), (u ''hoofdpijn'', PInt 0),
                    (u ''onrust'', PInt 0), (u ''pijn'', PInt 0)]]\<rparr>,
        [u ''patient'', u ''reports'', u ''hoofdpijn'', u ''onrust'', u ''no'', u ''complaints''])"
    by (simp add: ascii_defs sheet_defs matcher_defs)
  note inst = corpus_without_stopwords [OF run]
  from inst have c: "[u ''patient'', u ''reports'', u ''hoofdpijn'', u ''onrust'', u ''no'', u ''complaints''] =
       concat (map (\<lambda>r. filter (\<lambda>t. t \<notin> DUTCH_STOPWORDS)
                            (tokenize ascii_ucd (text_or_empty (r (u ''Report'')))))
          (records (report_sheet [PStr (u ''Patient reports hoofdpijn en onrust''), PObj (),
                                  PStr (u ''No complaints'')] :: unit sheet)))"
    by (rule conjunct1)
  from inst have d: "set [u ''patient'', u ''reports'', u ''hoofdpijn'', u ''onrust'', u ''no'', u ''complaints'']
       \<inter> DUTCH_STOPWORDS = {}"
    by (rule conjunct2 [OF conjunct2])
  from run c d show ?thesis by (intro conjI)
qed

text \<open>
  A stopword of a record's text is a token of the record and is not in the corpus
  returned: of \<open>de pijn\<close> only \<open>pijn\<close> is kept.
\<close>

theorem corpus_drops_stopword_counterexample:
  "tokenize ascii_ucd (PStr (u ''de pijn'') :: unit pyval) = [u ''de'', u ''pijn'']
   \<and> process_sheet ascii_ucd (Inr (report_sheet [PStr (u ''de pijn'')]) :: unit + unit sheet)
        [u ''pijn''] (u ''patient_id'') (u ''Report'') False =
      Inr (\<lparr>t_columns = [u ''patient_id'', u ''pijn''],
            t_rows = [[(u ''patient_id'', PInt 1), (u ''pijn'', PInt 1)]]\<rparr>,
           [u ''pijn''])"
  by (simp add: ascii_defs sheet_defs matcher_defs)

section \<open>The flags of a row\<close>

lemma map_of_dict_set: "map_of (dict_set d k v) = (map_of d)(k \<mapsto> v)"
  by (induction d k v rule: dict_set.induct) (auto simp: fun_eq_iff)

lemma keys_dict_set:
  "map fst (dict_set d k v) = (if k \<in> set (map fst d) then map fst d else map fst d @ [k])"
  by (induction d k v rule: dict_set.induct) auto

lemma dict_get_flag_loop:
  "dict_get (flag_loop kws matched row) k =
     (if k \<in> set kws then Some (PInt (if k \<in> set matched then 1 else 0))
      else dict_get row k)"
proof (induction kws arbitrary: row)
  case Nil
  show ?case by simp
next
  case (Cons kw kws)
  show ?case
    by (simp add: Cons.IH) (simp add: dict_get_def map_of_dict_set)
qed

lemma keys_flag_loop: "map fst (flag_loop kws matched row) = add_keys (map fst row) kws"
proof (induction kws arbitrary: row)
  case Nil
  show ?case by simp
next
  case (Cons kw kws)
  show ?case
    by (simp only: flag_loop.simps add_keys.simps Cons.IH keys_dict_set)
qed

lemma add_keys_distinct:
  "distinct (cols @ ks) \<Longrightarrow> add_keys cols ks = cols @ ks"
proof (induction ks arbitrary: cols)
  case Nil
  show ?case by simp
next
  case (Cons k ks)
  from Cons.prems have "k \<notin> set cols" and "distinct ((cols @ [k]) @ ks)" by auto
  with Cons.IH [of "cols @ [k]"] show ?case by simp
qed

text \<open>
  What a row holds, for every record: its keys are the identifier column and then the
  trimmed keywords as first met (all of them in the given order when they are distinct
  and differ from the identifier column), and under each trimmed keyword stands 1 or 0
  as the keyword, as trimmed, is or is not among the matcher's results.
\<close>

lemma row_of_record:
  assumes "process_sheet U (Inr df) kws pidc textc sub = Inr (tbl, corpus)"
    and "i < length (records df)"
  shows "map fst (t_rows tbl ! i) = add_keys [pidc] (sheet_keywords U kws)"
    and "k \<in> set (sheet_keywords U kws) \<Longrightarrow>
         dict_get (t_rows tbl ! i) k =
           Some (PInt (if k \<in> set (extract_keywords_from_text U
                                      (text_or_empty ((records df ! i) textc))
                                      (sheet_keywords U kws) sub)
                       then 1 else 0))"
proof -
  have present: "pidc \<in> set (columns df) \<and> textc \<in> set (columns df)"
  proof (rule ccontr)
    assume "\<not> ?thesis"
    then have "pidc \<notin> set (columns df) \<or> textc \<notin> set (columns df)" by simp
    with assms(1) show False by (simp add: process_sheet_missing)
  qed
  from assms(2) have ne: "records df \<noteq> []" by auto
  from assms(1) present ne have "tbl =
      DataFrame (fst (row_loop U (sheet_keywords U kws) pidc textc sub (records df) ([], [])))"
    by (simp add: process_sheet_present Let_def empty_frame_row_loop)
  then have rows: "t_rows tbl =
      map (\<lambda>r. flag_loop (sheet_keywords U kws)
                 (extract_keywords_from_text U (text_or_empty (r textc)) (sheet_keywords U kws) sub)
                 [(pidc, r pidc)]) (records df)"
    by (simp add: DataFrame_def rows_row_loop)
  show "map fst (t_rows tbl ! i) = add_keys [pidc] (sheet_keywords U kws)"
    using assms(2) by (simp add: rows keys_flag_loop)
  show "dict_get (t_rows tbl ! i) k =
           Some (PInt (if k \<in> set (extract_keywords_from_text U
                                      (text_or_empty ((records df ! i) textc))
                                      (sheet_keywords U kws) sub)
                       then 1 else 0))"
    if "k \<in> set (sheet_keywords U kws)"
    using assms(2) that by (simp add: rows dict_get_flag_loop)
qed

lemma dropWhile_unchanged: "xs = [] \<or> \<not> P (hd xs) \<Longrightarrow> dropWhile P xs = xs"
  by (cases xs) auto

lemma strip_strip: "strip U (strip U s) = strip U s"
proof -
  let ?P = "isspace U"
  let ?a = "dropWhile ?P s"
  let ?b = "dropWhile ?P (rev ?a)"
  have "rev ?b = [] \<or> \<not> ?P (hd (rev ?b))"
  proof (cases "?b = []")
    case True
    then show ?thesis by simp
  next
    case False
    have a: "?a \<noteq> []"
    proof
      assume "?a = []"
      then have "?b = []" by (simp only: rev.simps dropWhile.simps)
      with False show False by (rule notE)
    qed
    have "suffix ?b (rev ?a)" by (rule suffix_dropWhile)
    then obtain ps where "rev ?a = ps @ ?b" by (auto simp: suffix_def)
    then have "last (rev ?a) = last ?b" using False by (metis last_appendR)
    then have "last ?b = hd ?a" using a by (simp add: last_rev)
    moreover have "hd (rev ?b) = last ?b" using False by (simp add: hd_rev)
    moreover have "\<not> ?P (hd ?a)" using a by (rule hd_dropWhile)
    ultimately show ?thesis by simp
  qed
  then have "dropWhile ?P (rev ?b) = rev ?b" by (rule dropWhile_unchanged)
  then have "rev (dropWhile ?P (rev (dropWhile ?P (rev ?b)))) = rev ?b"
    by (simp only: rev_rev_ident dropWhile_idem)
  then show ?thesis by (simp only: strip_def)
qed

lemma usable_strip: "usable U kw \<Longrightarrow> usable U (strip U kw)"
  by (simp add: usable_def strip_strip)

lemma normalized_sheet_keywords:
  "normalized_keywords U (sheet_keywords U kws) = normalized_keywords U kws"
proof -
  have "filter (usable U \<circ> strip U) (filter (usable U) kws) = filter (usable U) kws"
    by (induction kws) (auto simp: usable_strip)
  then show ?thesis
    by (simp add: normalized_keywords_def sheet_keywords_def filter_map strip_strip)
qed

lemma extract_sheet_keywords:
  "extract_keywords_from_text U text (sheet_keywords U kws) sub =
   extract_keywords_from_text U text kws sub"
  by (simp only: extract_filter normalized_sheet_keywords)

text \<open>
  A keyword that is in lower case once trimmed is its own normalized form, and its
  column holds 1 exactly when the matcher reports it for the record.
\<close>

lemma lowercase_keyword_flag:
  assumes "process_sheet U (Inr df) kws pidc textc sub = Inr (tbl, corpus)"
    and "i < length (records df)"
    and "k \<in> set (sheet_keywords U kws)"
    and "lower U k = k"
  shows "k \<in> set (normalized_keywords U kws)"
    and "dict_get (t_rows tbl ! i) k =
           Some (PInt (if k \<in> set (extract_keywords_from_text U
                                      (text_or_empty ((records df ! i) textc)) kws sub)
                       then 1 else 0))"
proof -
  from assms(3) obtain kw where "kw \<in> set kws" and "usable U kw" and "k = strip U kw"
    by (auto simp: sheet_keywords_def)
  with assms(4) show "k \<in> set (normalized_keywords U kws)"
    by (force simp: normalized_keywords_def)
  from row_of_record(2) [OF assms(1) assms(2) assms(3)]
  show "dict_get (t_rows tbl ! i) k =
           Some (PInt (if k \<in> set (extract_keywords_from_text U
                                      (text_or_empty ((records df ! i) textc)) kws sub)
                       then 1 else 0))"
    by (simp only: extract_sheet_keywords)
qed

text \<open>
  Claim C1.  The row of a record should hold, under each normalized keyword, 1 if the
  matcher reports the keyword for the record and 0 otherwise.  For a keyword typed with
  a capital it does not: with the keyword \<open>Pain\<close> and a record whose text holds the
  word in both spellings, the matcher reports the normalized keyword \<open>pain\<close>, while
  the row has no column \<open>pain\<close>; its column is named \<open>Pain\<close> and holds 0.
\<close>

theorem capital_keyword_flag:
  "extract_keywords_from_text ascii_ucd (PStr (u ''Pain, less pain'') :: unit pyval)
     [u ''Pain''] False = [u ''pain'']
   \<and> process_sheet ascii_ucd (Inr (report_sheet [PStr (u ''Pain, less pain'')]) :: unit + unit sheet)
        [u ''Pain''] (u ''patient_id'') (u ''Report'') False =
      Inr (\<lparr>t_columns = [u ''patient_id'', u ''Pain''],
            t_rows = [[(u ''patient_id'', PInt 1), (u ''Pain'', PInt 0)]]\<rparr>,
           [u ''pain'', u ''less'', u ''pain''])"
  by (simp add: ascii_defs sheet_defs matcher_defs)

section \<open>Properties of the word cloud step\<close>

lemma strip_Nil_iff: "strip U s = [] \<longleftrightarrow> (\<forall>c \<in> set s. isspace U c)"
proof
  assume "strip U s = []"
  then have all: "\<forall>c \<in> set (dropWhile (isspace U) s). isspace U c"
    by (simp add: strip_def dropWhile_eq_Nil_conv)
  have "dropWhile (isspace U) s = []"
  proof (rule ccontr)
    assume ne: "dropWhile (isspace U) s \<noteq> []"
    then have "\<not> isspace U (hd (dropWhile (isspace U) s))"
      by (rule hd_dropWhile)
    moreover from ne have "hd (dropWhile (isspace U) s) \<in> set (dropWhile (isspace U) s)"
      by (rule hd_in_set)
    ultimately show False using all by blast
  qed
  then show "\<forall>c \<in> set s. isspace U c"
    by (simp add: dropWhile_eq_Nil_conv)
next
  assume "\<forall>c \<in> set s. isspace U c"
  then have "dropWhile (isspace U) s = []"
    by (simp add: dropWhile_eq_Nil_conv)
  then show "strip U s = []"
    by (simp only: strip_def rev.simps dropWhile.simps)
qed

lemma set_join_first: "set w \<subseteq> set (join sep (w # ws))"
  by (cases ws) auto

lemma token_has_non_space:
  assumes "\<forall>c. word_char U c \<longrightarrow> \<not> isspace U c" and "is_token U t"
  shows "\<exists>c \<in> set t. \<not> isspace U c"
proof -
  from assms(2) obtain c where "c \<in> set t" and "word_char U c"
    by (cases t) (auto simp: is_token_def)
  with assms(1) show ?thesis by blast
qed

text \<open>
  Claim C9.  On a corpus of tokens, where no word character is white space,
  \<open>build_wordcloud_image\<close> raises the error for the missing words exactly when the
  corpus has no token, and then whatever the renderer is: the renderer is only applied
  to the joined text of a corpus that has tokens.
\<close>

theorem no_words_error_iff_empty_corpus:
  assumes "\<forall>c. word_char U c \<longrightarrow> \<not> isspace U c"
    and "list_all (is_token U) all_words"
  shows "(build_wordcloud_image U render all_words = Inl NoWords \<longleftrightarrow> all_words = [])
     \<and> (all_words = [] \<longrightarrow> build_wordcloud_image U render' all_words = Inl NoWords)
     \<and> (all_words \<noteq> [] \<longrightarrow>
          build_wordcloud_image U render all_words =
            (case render (join [32] all_words) of
               Inl e \<Rightarrow> Inl (RenderFailed e)
             | Inr img \<Rightarrow> Inr img))"
proof (cases all_words)
  case Nil
  then show ?thesis by (simp add: build_wordcloud_image_def strip_def)
next
  case (Cons w ws)
  with assms(2) have "is_token U w" by simp
  with assms(1) obtain c where "c \<in> set w" and ns: "\<not> isspace U c"
    using token_has_non_space by blast
  then have "c \<in> set (join [32] (w # ws))"
    using set_join_first by blast
  with ns have "strip U (join [32] (w # ws)) \<noteq> []"
    by (auto simp: strip_Nil_iff)
  then have run: "build_wordcloud_image U render all_words =
            (case render (join [32] all_words) of
               Inl e \<Rightarrow> Inl (RenderFailed e)
             | Inr img \<Rightarrow> Inr img)"
    by (simp add: build_wordcloud_image_def Cons Let_def)
  then have "build_wordcloud_image U render all_words \<noteq> Inl NoWords"
    by (simp split: sum.splits)
  with run Cons show ?thesis by simp
qed

lemma ascii_word_char_not_space: "\<forall>c. word_char ascii_ucd c \<longrightarrow> \<not> isspace ascii_ucd c"
  by (auto simp: word_char_def ascii_ucd_def ascii_isalnum_def ascii_isspace_def)

theorem no_words_error_iff_empty_corpus_witness:
  "list_all (is_token ascii_ucd) []
   \<and> build_wordcloud_image ascii_ucd (\<lambda>t. Inr (length t) :: unit + nat) [] = Inl NoWords
   \<and> build_wordcloud_image ascii_ucd (\<lambda>t. Inl () :: unit + nat) [] = Inl NoWords
   \<and> list_all (is_token ascii_ucd) [u ''pijn'', u ''onrust'']
   \<and> [u ''pijn'', u ''onrust''] \<noteq> []
   \<and> build_wordcloud_image ascii_ucd (\<lambda>t. Inr (length t) :: unit + nat) [u ''pijn'', u ''onrust'']
        \<noteq> Inl NoWords
   \<and> build_wordcloud_image ascii_ucd (\<lambda>t. Inr (length t) :: unit + nat) [u ''pijn'', u ''onrust'']
        = Inr 11"
proof -
  let ?r = "\<lambda>t. Inr (length t) :: unit + nat"
  let ?r' = "\<lambda>t. Inl () :: unit + nat"
  have t0: "list_all (is_token ascii_ucd) []" by simp
  have t2: "list_all (is_token ascii_ucd) [u ''pijn'', u ''onrust'']"
    by (simp add: is_token_def word_char_def ascii_defs)
  have ne: "[u ''pijn'', u ''onrust''] \<noteq> []" by simp
  note e = no_words_error_iff_empty_corpus [OF ascii_word_char_not_space t0, of ?r ?r']
  note f = no_words_error_iff_empty_corpus [OF ascii_word_char_not_space t2, of ?r ?r']
  from e have 1: "build_wordcloud_image ascii_ucd ?r [] = Inl NoWords" by blast
  from e have 2: "build_wordcloud_image ascii_ucd ?r' [] = Inl NoWords" by blast
  from f ne have 3: "build_wordcloud_image ascii_ucd ?r [u ''pijn'', u ''onrust''] \<noteq> Inl NoWords"
    by blast
  from f ne have "build_wordcloud_image ascii_ucd ?r [u ''pijn'', u ''onrust''] =
      (case ?r (join [32] [u ''pijn'', u ''onrust'']) of
               Inl e \<Rightarrow> Inl (RenderFailed e)
             | Inr img \<Rightarrow> Inr img)"
    by blast
  then have 4: "build_wordcloud_image ascii_ucd ?r [u ''pijn'', u ''onrust''] = Inr 11"
    by (simp add: u_def)
  from t0 1 2 t2 ne 3 4 show ?thesis by (intro conjI)
qed

lemma tokenize_tokens: "t \<in> set (tokenize U v) \<Longrightarrow> is_token U t"
  by (cases v) (simp_all add: tokenize_def is_token_def maximal_runs_tokens)

lemma corpus_tokens:
  assumes "process_sheet U (Inr df) kws pidc textc sub = Inr (tbl, corpus)"
  shows "list_all (is_token U) corpus"
proof -
  have present: "pidc \<in> set (columns df) \<and> textc \<in> set (columns df)"
  proof (rule ccontr)
    assume "\<not> ?thesis"
    then have "pidc \<notin> set (columns df) \<or> textc \<notin> set (columns df)" by simp
    with assms show False by (simp add: process_sheet_missing)
  qed
  with assms have c: "corpus = concat (map (\<lambda>r. filter (\<lambda>t. t \<notin> DUTCH_STOPWORDS)
                                     (tokenize U (text_or_empty (r textc)))) (records df))"
    by (simp add: process_sheet_present Let_def corpus_row_loop)
  show ?thesis
    unfolding c by (auto simp: list_all_iff dest: tokenize_tokens)
qed

end
